theory Spec2Isabelle
  imports Complex_Main
begin

section \<open>Multi-click classification (class ClickConfigWindowHelper)\<close>

text \<open>
  The three press handlers of \<^verbatim>\<open>click_config.py\<close> read and write the instance attribute
  \<^verbatim>\<open>_time_of_last_click\<close>, a Python list created as \<^verbatim>\<open>[None, 0, 0, 0, 0, 0]\<close>, and read
  \<^verbatim>\<open>_double_click_time\<close>. Timestamps come from \<^verbatim>\<open>time.time()\<close>; they are modelled as
  real numbers (the handlers only subtract two of them and compare with \<open><\<close>). The calls
  to the logger have no influence on the result and are left out.

  Reading a list element out of range raises \<^verbatim>\<open>IndexError\<close> in Python, subtracting
  \<^verbatim>\<open>None\<close> from a number raises \<^verbatim>\<open>TypeError\<close>; both are values of the model.
\<close>

datatype py_error = IndexError | TypeError

record window_helper =
  time_of_last_click :: "real option list"
  double_click_time :: real

text \<open>
  The part of \<^verbatim>\<open>__init__\<close> that sets up the two attributes; the argument is the GTK
  setting \<^verbatim>\<open>gtk-double-click-time\<close> in milliseconds.
\<close>

definition init_helper :: "int \<Rightarrow> window_helper" where
  "init_helper gtk_doubleclick_ms =
     \<lparr>time_of_last_click = [None, Some 0, Some 0, Some 0, Some 0, Some 0],
      double_click_time = real_of_int gtk_doubleclick_ms / 1000\<rparr>"

text \<open>The expression \<^verbatim>\<open>now - self._time_of_last_click[i]\<close>.\<close>

definition since_last_click :: "window_helper \<Rightarrow> real \<Rightarrow> nat \<Rightarrow> py_error + real" where
  "since_last_click self now i =
     (if i < length (time_of_last_click self) then
        (case time_of_last_click self ! i of
           None \<Rightarrow> Inl TypeError
         | Some t \<Rightarrow> Inr (now - t))
      else Inl IndexError)"

text \<open>The assignment \<^verbatim>\<open>self._time_of_last_click[i] = now\<close>.\<close>

definition record_click :: "window_helper \<Rightarrow> nat \<Rightarrow> real \<Rightarrow> py_error + window_helper" where
  "record_click self i now =
     (if i < length (time_of_last_click self) then
        Inr (self\<lparr>time_of_last_click := (time_of_last_click self)[i := Some now]\<rparr>)
      else Inl IndexError)"

text \<open>
  A handler returns the pair \<^verbatim>\<open>(handled, click)\<close>; the model returns it together with
  the updated instance.
\<close>

type_synonym press_result = "(bool \<times> nat option) \<times> window_helper"

definition handle_1button_press :: "window_helper \<Rightarrow> real \<Rightarrow> py_error + press_result" where
  "handle_1button_press self now =
     (case since_last_click self now 4 of Inl e \<Rightarrow> Inl e | Inr d4 \<Rightarrow>
      if d4 < double_click_time self then
        (case record_click self 5 now of Inl e \<Rightarrow> Inl e
         | Inr self' \<Rightarrow> Inr ((False, Some 5), self'))
      else
     (case since_last_click self now 3 of Inl e \<Rightarrow> Inl e | Inr d3 \<Rightarrow>
      if d3 < double_click_time self then
        (case record_click self 4 now of Inl e \<Rightarrow> Inl e
         | Inr self' \<Rightarrow> Inr ((False, Some 4), self'))
      else
     (case since_last_click self now 2 of Inl e \<Rightarrow> Inl e | Inr d2 \<Rightarrow>
      if d2 < double_click_time self then Inr ((True, None), self)
      else
     (case since_last_click self now 1 of Inl e \<Rightarrow> Inl e | Inr d1 \<Rightarrow>
      if d1 < double_click_time self then Inr ((True, None), self)
      else
        (case record_click self 1 now of Inl e \<Rightarrow> Inl e
         | Inr self' \<Rightarrow> Inr ((False, Some 1), self'))))))"

definition handle_2button_press :: "window_helper \<Rightarrow> real \<Rightarrow> py_error + press_result" where
  "handle_2button_press self now =
     (case since_last_click self now 4 of Inl e \<Rightarrow> Inl e | Inr d4 \<Rightarrow>
      if d4 < double_click_time self then Inr ((True, None), self)
      else
        (case record_click self 2 now of Inl e \<Rightarrow> Inl e
         | Inr self' \<Rightarrow> Inr ((False, Some 2), self')))"

definition handle_3button_press :: "window_helper \<Rightarrow> real \<Rightarrow> py_error + press_result" where
  "handle_3button_press self now =
     (case since_last_click self now 5 of Inl e \<Rightarrow> Inl e | Inr d5 \<Rightarrow>
      if d5 < double_click_time self then Inr ((True, None), self)
      else
        (case record_click self 3 now of Inl e \<Rightarrow> Inl e
         | Inr self' \<Rightarrow> Inr ((False, Some 3), self')))"

text \<open>
  The dictionary \<^verbatim>\<open>handlers_by_type\<close> of \<^verbatim>\<open>_handle_button_press\<close>, keyed by the GDK
  event type of a press of button 1.
\<close>

datatype event_type = GDK_BUTTON_PRESS | GDK_2BUTTON_PRESS | GDK_3BUTTON_PRESS

fun handlers_by_type :: "event_type \<Rightarrow> window_helper \<Rightarrow> real \<Rightarrow> py_error + press_result" where
  "handlers_by_type GDK_BUTTON_PRESS = handle_1button_press"
| "handlers_by_type GDK_2BUTTON_PRESS = handle_2button_press"
| "handlers_by_type GDK_3BUTTON_PRESS = handle_3button_press"

text \<open>
  A stream of presses: each event goes to its handler, the instance is threaded through,
  and the \<^verbatim>\<open>(handled, click)\<close> pairs are collected in order. An exception ends the run.
\<close>

fun press_sequence ::
  "window_helper \<Rightarrow> (event_type \<times> real) list \<Rightarrow> py_error + ((bool \<times> nat option) list \<times> window_helper)" where
  "press_sequence self [] = Inr ([], self)"
| "press_sequence self ((ty, now) # evs) =
     (case handlers_by_type ty self now of
        Inl e \<Rightarrow> Inl e
      | Inr (r, self') \<Rightarrow>
          (case press_sequence self' evs of
             Inl e \<Rightarrow> Inl e
           | Inr (rs, self'') \<Rightarrow> Inr (r # rs, self'')))"

text \<open>
  The two kinds of result: the event is consumed and no click level is reported, or a
  click level is reported for selection.
\<close>

definition suppress :: "bool \<times> nat option" where
  "suppress = (True, None)"

definition emit :: "nat \<Rightarrow> bool \<times> nat option" where
  "emit level = (False, Some level)"

text \<open>
  The shape every instance has: six entries, of which entries 1 to 5 hold a number.
  \<open>slot\<close> reads the time stored for a click level; \<open>no_previous_click\<close> is the value
  the five entries start with.
\<close>

definition well_formed :: "window_helper \<Rightarrow> bool" where
  "well_formed self \<longleftrightarrow>
     length (time_of_last_click self) = 6 \<and> None \<notin> set (tl (time_of_last_click self))"

definition slot :: "window_helper \<Rightarrow> nat \<Rightarrow> real" where
  "slot self level = the (time_of_last_click self ! level)"

definition no_previous_click :: real where
  "no_previous_click = 0"

definition set_slot :: "window_helper \<Rightarrow> nat \<Rightarrow> real \<Rightarrow> window_helper" where
  "set_slot self level now =
     self\<lparr>time_of_last_click := (time_of_last_click self)[level := Some now]\<rparr>"


text \<open>
  What a press may change: entry \<open>level\<close> now holds \<open>now\<close>, every other entry and the
  interval are as before.
\<close>

definition only_slot_written :: "window_helper \<Rightarrow> window_helper \<Rightarrow> nat \<Rightarrow> real \<Rightarrow> bool" where
  "only_slot_written self self' level now \<longleftrightarrow>
     length (time_of_last_click self') = length (time_of_last_click self) \<and>
     time_of_last_click self' ! level = Some now \<and>
     (\<forall>i < length (time_of_last_click self).
        i \<noteq> level \<longrightarrow> time_of_last_click self' ! i = time_of_last_click self ! i) \<and>
     double_click_time self' = double_click_time self"

definition press_outcomes ::
  "window_helper \<Rightarrow> (event_type \<times> real) list \<Rightarrow> py_error + (bool \<times> nat option) list" where
  "press_outcomes self evs =
     (case press_sequence self evs of Inl e \<Rightarrow> Inl e | Inr (rs, self') \<Rightarrow> Inr rs)"

text \<open>
  Three instances with an interval of 0.4 seconds. In \<open>quintuple_clicked\<close> all five
  entries have been written: it is reached from a new instance by a quintuple click that
  starts at time 100. In \<open>single_clicked\<close> only entry 1 has been written (a single click
  at time 1000), in \<open>triple_clicked\<close> entries 1 to 3 (a triple click that starts at time
  1000).
\<close>

definition single_clicked :: window_helper where
  "single_clicked =
     \<lparr>time_of_last_click = [None, Some 1000, Some 0, Some 0, Some 0, Some 0],
      double_click_time = 0.4\<rparr>"

definition triple_clicked :: window_helper where
  "triple_clicked =
     \<lparr>time_of_last_click = [None, Some 1000, Some 1000.1, Some 1000.2, Some 0, Some 0],
      double_click_time = 0.4\<rparr>"

definition quintuple_clicked :: window_helper where
  "quintuple_clicked =
     \<lparr>time_of_last_click = [None, Some 100, Some 100.1, Some 100.2, Some 100.3, Some 100.4],
      double_click_time = 0.4\<rparr>"

section \<open>Finding the match under the click (method find_text)\<close>

text \<open>
  \<^verbatim>\<open>_find_text(source_text, pick_pos, word_re)\<close> uses the compiled pattern only through
  \<^verbatim>\<open>word_re.search(source_text, pos)\<close> and the \<^verbatim>\<open>span()\<close> of the match object it
  returns. A compiled pattern is therefore modelled by its search method: a function from
  the text and the start position to the span of the match found, or \<open>None\<close>.
  Offsets are character positions, which GTK hands over as non-negative numbers.
\<close>

type_synonym pattern = "string \<Rightarrow> nat \<Rightarrow> (nat \<times> nat) option"

text \<open>
  The \<^verbatim>\<open>while\<close> loop, with the loop variables \<^verbatim>\<open>pos\<close> and
  \<^verbatim>\<open>(match_start, match_end)\<close> as arguments. The loop of the source has no bound, so
  the model is a partial function: \<open>None\<close> is a run that never leaves the loop.
\<close>

partial_function (option) find_text_loop ::
  "string \<Rightarrow> nat \<Rightarrow> pattern \<Rightarrow> nat \<Rightarrow> nat \<times> nat \<Rightarrow> (bool \<times> nat \<times> nat) option" where
  "find_text_loop source_text pick_pos word_re pos prev =
     (if pos \<noteq> length source_text then
        (case word_re source_text pos of
           None \<Rightarrow> Some (False, prev)
         | Some m \<Rightarrow>
             if fst m \<le> pick_pos \<and> pick_pos < snd m then Some (True, m)
             else if pick_pos < fst m then Some (False, m)
             else find_text_loop source_text pick_pos word_re
                    ((if pos < fst m then fst m else pos) + 1) m)
      else Some (False, prev))"

declare find_text_loop.simps [code]

definition find_text :: "string \<Rightarrow> nat \<Rightarrow> pattern \<Rightarrow> (bool \<times> nat \<times> nat) option" where
  "find_text source_text pick_pos word_re =
     find_text_loop source_text pick_pos word_re 0 (0, 0)"

text \<open>
  A span is a match of the pattern in the text when the pattern's search reports it from
  some start position; \<open>slice\<close> is Python's \<^verbatim>\<open>text[start:stop]\<close> for
  \<open>start \<le> stop \<le> length text\<close>.
\<close>

definition is_match :: "pattern \<Rightarrow> string \<Rightarrow> nat \<times> nat \<Rightarrow> bool" where
  "is_match word_re text m \<longleftrightarrow> (\<exists>pos. word_re text pos = Some m)"

definition slice :: "string \<Rightarrow> nat \<Rightarrow> nat \<Rightarrow> string" where
  "slice text start stop = take (stop - start) (drop start text)"

subsection \<open>The patterns: a fragment of Python's regular expressions\<close>

text \<open>
  The module \<^verbatim>\<open>re\<close> belongs to Python, not to this program. For the statements about
  particular patterns, the fragment they need is modelled here the way the library
  matches: a backtracking matcher that tries alternatives in order and repetitions
  greedily. \<open>ends fl r text i\<close> lists, in the order in which the matcher tries them, the
  positions at which a match of \<open>r\<close> that starts at \<open>i\<close> can end. The flags are
  \<^verbatim>\<open>re.MULTILINE\<close> (\<open>^\<close> and \<open>$\<close> also match at line breaks) and \<^verbatim>\<open>re.DOTALL\<close>
  (\<open>.\<close> also matches a newline). The patterns used here repeat only bodies that
  consume a character (\<open>.\<close> or a character class); for a repeated body that can match
  the empty string the library has a rule of its own, which the model does not follow.
\<close>

datatype regex =
    Lit char
  | AnyChar
  | CharClass "(char \<times> char) list"
  | BOL
  | EOL
  | Seq regex regex
  | Alt regex regex
  | Star regex

record re_flags =
  MULTILINE :: bool
  DOTALL :: bool

definition newline :: char where
  "newline = CHR 0x0A"

definition in_class :: "(char \<times> char) list \<Rightarrow> char \<Rightarrow> bool" where
  "in_class rs c \<longleftrightarrow>
     (\<exists>(lo, hi) \<in> set rs. (of_char lo :: nat) \<le> of_char c \<and> (of_char c :: nat) \<le> of_char hi)"

function ends :: "re_flags \<Rightarrow> regex \<Rightarrow> string \<Rightarrow> nat \<Rightarrow> nat list" where
  "ends fl (Lit c) text i = (if i < length text \<and> text ! i = c then [i + 1] else [])"
| "ends fl AnyChar text i =
     (if i < length text \<and> (DOTALL fl \<or> text ! i \<noteq> newline) then [i + 1] else [])"
| "ends fl (CharClass rs) text i =
     (if i < length text \<and> in_class rs (text ! i) then [i + 1] else [])"
| "ends fl BOL text i =
     (if i = 0 \<or> (MULTILINE fl \<and> i \<le> length text \<and> text ! (i - 1) = newline)
      then [i] else [])"
| "ends fl EOL text i =
     (if i = length text \<or> (i + 1 = length text \<and> text ! i = newline)
         \<or> (MULTILINE fl \<and> i < length text \<and> text ! i = newline)
      then [i] else [])"
| "ends fl (Seq r1 r2) text i = concat (map (ends fl r2 text) (ends fl r1 text i))"
| "ends fl (Alt r1 r2) text i = ends fl r1 text i @ ends fl r2 text i"
| "ends fl (Star r) text i =
     concat (map (ends fl (Star r) text)
                 (filter (\<lambda>j. i < j \<and> j \<le> length text) (ends fl r text i))) @ [i]"
  by pat_completeness auto
termination
  by (relation "inv_image (less_than <*lex*> less_than)
                  (\<lambda>(fl, r, text, i). (size r, length text - i))")
     auto

text \<open>
  \<^verbatim>\<open>re.compile(r, flags).search(text, pos)\<close>: the leftmost position from \<open>pos\<close> on at
  which the pattern matches, with the first end the matcher reaches. The library moves
  a start position beyond the end of the text back to the end.
\<close>

definition re_search :: "re_flags \<Rightarrow> regex \<Rightarrow> pattern" where
  "re_search fl r text pos =
     (case List.find (\<lambda>s. ends fl r text s \<noteq> []) [min pos (length text)..<Suc (length text)] of
        None \<Rightarrow> None
      | Some s \<Rightarrow> Some (s, hd (ends fl r text s)))"

definition no_flags :: re_flags where
  "no_flags = \<lparr>MULTILINE = False, DOTALL = False\<rparr>"

definition flag_M :: re_flags where
  "flag_M = \<lparr>MULTILINE = True, DOTALL = False\<rparr>"

definition Plus :: "regex \<Rightarrow> regex" where
  "Plus r = Seq r (Star r)"

text \<open>
  The patterns used below: \<^verbatim>\<open>^.*\n\<close> (the selection "Line+" of the plugin, compiled
  with \<^verbatim>\<open>re.M\<close>), \<^verbatim>\<open>[a-zA-Z_]+\<close>, \<^verbatim>\<open>$\<close> and \<^verbatim>\<open>^.*$\<close>.
\<close>

definition line_plus :: regex where
  "line_plus = Seq BOL (Seq (Star AnyChar) (Lit newline))"

definition name_chars :: regex where
  "name_chars = Plus (CharClass [(CHR ''a'', CHR ''z''), (CHR ''A'', CHR ''Z''), (CHR ''_'', CHR ''_'')])"

definition whole_line :: regex where
  "whole_line = Seq BOL (Seq (Star AnyChar) EOL)"

definition two_lines :: string where
  "two_lines = ''line one\<newline>line two\<newline>''"

section \<open>Facts about the click handlers\<close>

subsection \<open>Basic facts\<close>

lemma well_formed_shape:
  assumes "well_formed self"
  obtains x t1 t2 t3 t4 t5 where
    "time_of_last_click self = [x, Some t1, Some t2, Some t3, Some t4, Some t5]"
proof -
  from assms have len: "length (time_of_last_click self) = 6"
    and nn: "None \<notin> set (tl (time_of_last_click self))"
    by (simp_all add: well_formed_def)
  from len obtain x a b c d e where
    eq: "time_of_last_click self = [x, a, b, c, d, e]"
    by (auto simp: length_Suc_conv eval_nat_numeral)
  have some: "\<exists>t. v = Some t" if "None \<noteq> v" for v :: "real option"
    using that by (cases v) auto
  from nn eq obtain t1 t2 t3 t4 t5 where
    "a = Some t1" "b = Some t2" "c = Some t3" "d = Some t4" "e = Some t5"
    by (auto dest!: some)
  with eq show thesis
    by (intro that) simp
qed

lemma well_formed_init: "well_formed (init_helper ms)"
  by (simp add: well_formed_def init_helper_def)

lemma since_last_click_wf:
  assumes "well_formed self" "1 \<le> i" "i \<le> 5"
  shows "since_last_click self now i = Inr (now - slot self i)"
proof -
  from assms(1) obtain x t1 t2 t3 t4 t5 where
    eq: "time_of_last_click self = [x, Some t1, Some t2, Some t3, Some t4, Some t5]"
    by (rule well_formed_shape)
  from assms(2,3) have "i = 1 \<or> i = 2 \<or> i = 3 \<or> i = 4 \<or> i = 5"
    by arith
  then show ?thesis
    by (auto simp: since_last_click_def slot_def eq)
qed

lemma record_click_wf:
  assumes "well_formed self" "i \<le> 5"
  shows "record_click self i now = Inr (set_slot self i now)"
  using assms by (simp add: record_click_def set_slot_def well_formed_def)

lemma tl_update_no_None:
  assumes "None \<notin> set (tl xs)" "1 \<le> i"
  shows "None \<notin> set (tl (xs[i := Some v]))"
  using assms
  by (cases xs; cases i) (auto dest: set_update_subset_insert [THEN subsetD])

lemma well_formed_set_slot:
  assumes "well_formed self" "1 \<le> i"
  shows "well_formed (set_slot self i now)"
  using assms by (simp add: well_formed_def set_slot_def tl_update_no_None)

lemma handle_1button_press_wf:
  assumes "well_formed self"
  shows "handle_1button_press self now = Inr
     (if now - slot self 4 < double_click_time self then (emit 5, set_slot self 5 now)
      else if now - slot self 3 < double_click_time self then (emit 4, set_slot self 4 now)
      else if now - slot self 2 < double_click_time self then (suppress, self)
      else if now - slot self 1 < double_click_time self then (suppress, self)
      else (emit 1, set_slot self 1 now))"
  using assms
  by (simp add: handle_1button_press_def since_last_click_wf record_click_wf emit_def suppress_def)

lemma handle_2button_press_wf:
  assumes "well_formed self"
  shows "handle_2button_press self now = Inr
     (if now - slot self 4 < double_click_time self then (suppress, self)
      else (emit 2, set_slot self 2 now))"
  using assms
  by (simp add: handle_2button_press_def since_last_click_wf record_click_wf emit_def suppress_def)

lemma handle_3button_press_wf:
  assumes "well_formed self"
  shows "handle_3button_press self now = Inr
     (if now - slot self 5 < double_click_time self then (suppress, self)
      else (emit 3, set_slot self 3 now))"
  using assms
  by (simp add: handle_3button_press_def since_last_click_wf record_click_wf emit_def suppress_def)

text \<open>
  The handlers keep the shape of the instance, so every instance reached from a new one
  by presses has it.
\<close>

lemma handlers_preserve_well_formed:
  assumes "well_formed self" "handlers_by_type ty self now = Inr (r, self')"
  shows "well_formed self'"
proof (cases ty)
  case GDK_BUTTON_PRESS
  with assms show ?thesis
    by (auto simp: handle_1button_press_wf well_formed_set_slot split: if_splits)
next
  case GDK_2BUTTON_PRESS
  with assms show ?thesis
    by (auto simp: handle_2button_press_wf well_formed_set_slot split: if_splits)
next
  case GDK_3BUTTON_PRESS
  with assms show ?thesis
    by (auto simp: handle_3button_press_wf well_formed_set_slot split: if_splits)
qed

lemma only_slot_written_set_slot:
  assumes "level < length (time_of_last_click self)"
  shows "only_slot_written self (set_slot self level now) level now"
  using assms by (simp add: only_slot_written_def set_slot_def)

lemma emit_neq_suppress: "emit level \<noteq> suppress"
  by (simp add: emit_def suppress_def)

lemma slot_init: "1 \<le> L \<Longrightarrow> L \<le> 5 \<Longrightarrow> slot (init_helper ms) L = 0"
proof -
  assume "1 \<le> L" "L \<le> 5"
  then have "L = 1 \<or> L = 2 \<or> L = 3 \<or> L = 4 \<or> L = 5" by arith
  then show ?thesis by (auto simp: slot_def init_helper_def)
qed

lemma double_click_time_init:
  "double_click_time (init_helper ms) = real_of_int ms / 1000"
  by (simp add: init_helper_def)

subsection \<open>The single-press handler\<close>

text \<open>
  Claim C2. For every timestamp \<open>now\<close> and every instance, the single-press handler
  evaluates its rules in strict order: within the interval of the last level-4 click it
  records entry 5 and reports level 5; else within the interval of the last level-3 click
  it records entry 4 and reports level 4; else within the interval of the last level-2
  click, or else of the last level-1 click, it consumes the event and reports no level;
  else it records entry 1 and reports level 1.
\<close>

theorem single_press_rules:
  assumes "well_formed self"
  shows "handle_1button_press self now = Inr
     (if now - slot self 4 < double_click_time self then (emit 5, set_slot self 5 now)
      else if now - slot self 3 < double_click_time self then (emit 4, set_slot self 4 now)
      else if now - slot self 2 < double_click_time self then (suppress, self)
      else if now - slot self 1 < double_click_time self then (suppress, self)
      else (emit 1, set_slot self 1 now))"
  using assms by (rule handle_1button_press_wf)

theorem single_press_rules_witness:
  "well_formed (init_helper 400) \<and>
   handle_1button_press (init_helper 400) 1000 = Inr (emit 1, set_slot (init_helper 400) 1 1000)"
  using single_press_rules [OF well_formed_init, of 400 1000]
  by (simp add: well_formed_init slot_init double_click_time_init)

subsection \<open>The triple-press handler\<close>

lemma well_formed_quintuple_clicked: "well_formed quintuple_clicked"
  by (simp add: well_formed_def quintuple_clicked_def)

lemma slot_quintuple_clicked:
  "slot quintuple_clicked 1 = 100" "slot quintuple_clicked 2 = 100.1"
  "slot quintuple_clicked 3 = 100.2" "slot quintuple_clicked 4 = 100.3"
  "slot quintuple_clicked 5 = 100.4" "double_click_time quintuple_clicked = 0.4"
  by (simp_all add: slot_def quintuple_clicked_def)

text \<open>
  Claim C6 says that the triple-press handler suppresses exactly when \<open>now\<close> is within
  the interval of the last level-5 click and otherwise records entry 3 and reports
  level 3, and concludes that a sextuple or longer sequence of clicks is always
  suppressed and never classified. The rule holds, the conclusion does not: GTK delivers
  the sixth click as a \<^verbatim>\<open>BUTTON_PRESS\<close> followed by a \<^verbatim>\<open>_3BUTTON_PRESS\<close>, and the
  \<^verbatim>\<open>BUTTON_PRESS\<close> goes to the single-press handler, which finds it within the interval
  of the level-4 click and reports level 5 once more. Only the \<^verbatim>\<open>_3BUTTON_PRESS\<close> that
  follows is suppressed. The presses of a sextuple click at times 100 to 100.5:
\<close>

theorem sixth_press_counterexample:
  "press_outcomes (init_helper 400)
     [(GDK_BUTTON_PRESS, 100),
      (GDK_BUTTON_PRESS, 100.1), (GDK_2BUTTON_PRESS, 100.1),
      (GDK_BUTTON_PRESS, 100.2), (GDK_3BUTTON_PRESS, 100.2),
      (GDK_BUTTON_PRESS, 100.3),
      (GDK_BUTTON_PRESS, 100.4), (GDK_2BUTTON_PRESS, 100.4),
      (GDK_BUTTON_PRESS, 100.5), (GDK_3BUTTON_PRESS, 100.5)]
   = Inr [emit 1, suppress, emit 2, suppress, emit 3, emit 4, emit 5, suppress,
          emit 5, suppress] \<and>
   handle_1button_press quintuple_clicked 100.5
     = Inr (emit 5, set_slot quintuple_clicked 5 100.5) \<and>
   emit 5 \<noteq> suppress"
proof -
  have a: "press_outcomes (init_helper 400)
     [(GDK_BUTTON_PRESS, 100),
      (GDK_BUTTON_PRESS, 100.1), (GDK_2BUTTON_PRESS, 100.1),
      (GDK_BUTTON_PRESS, 100.2), (GDK_3BUTTON_PRESS, 100.2),
      (GDK_BUTTON_PRESS, 100.3),
      (GDK_BUTTON_PRESS, 100.4), (GDK_2BUTTON_PRESS, 100.4),
      (GDK_BUTTON_PRESS, 100.5), (GDK_3BUTTON_PRESS, 100.5)]
   = Inr [emit 1, suppress, emit 2, suppress, emit 3, emit 4, emit 5, suppress,
          emit 5, suppress]"
    by (simp add: press_outcomes_def init_helper_def handle_1button_press_def
        handle_2button_press_def handle_3button_press_def since_last_click_def
        record_click_def emit_def suppress_def)
  have b: "handle_1button_press quintuple_clicked 100.5
     = Inr (emit 5, set_slot quintuple_clicked 5 100.5)"
    by (simp add: handle_1button_press_wf well_formed_quintuple_clicked slot_quintuple_clicked)
  have c: "emit 5 \<noteq> suppress"
    by (rule emit_neq_suppress)
  from a b c show ?thesis
    by (simp only: simp_thms)
qed

text \<open>
  Claim C6, amended. For every timestamp \<open>now\<close> and every instance, the triple-press
  handler consumes the event and reports no level exactly when \<open>now\<close> is within the
  interval of the last level-5 click (so the triple-press event of a sixth click is
  suppressed); otherwise it records \<open>now\<close> at entry 3 and reports level 3. Nothing is
  said about the single-press event of a sixth click, which the single-press handler
  may classify.
\<close>

theorem triple_press_rules:
  assumes "well_formed self"
  shows "handle_3button_press self now = Inr
           (if now - slot self 5 < double_click_time self then (suppress, self)
            else (emit 3, set_slot self 3 now)) \<and>
         ((\<exists>self'. handle_3button_press self now = Inr (suppress, self'))
            \<longleftrightarrow> now - slot self 5 < double_click_time self)"
  using assms by (simp add: handle_3button_press_wf emit_neq_suppress)

theorem triple_press_rules_witness:
  "well_formed quintuple_clicked \<and>
   handle_3button_press quintuple_clicked 100.5 = Inr (suppress, quintuple_clicked) \<and>
   handle_3button_press quintuple_clicked 101 = Inr (emit 3, set_slot quintuple_clicked 3 101)"
  using triple_press_rules [OF well_formed_quintuple_clicked, where now = "100.5"]
    triple_press_rules [OF well_formed_quintuple_clicked, of 101]
  by (simp add: well_formed_quintuple_clicked slot_quintuple_clicked)

subsection \<open>What a press writes\<close>

text \<open>
  Claim C9. Every call of one of the three handlers returns exactly one of a suppression
  and a reported level, and writes at most one entry: when it suppresses, the instance is
  unchanged; when it reports level \<open>L\<close>, entry \<open>L\<close> is set to \<open>now\<close> and every other
  entry is unchanged.
\<close>

theorem press_writes_at_most_one_slot:
  assumes "well_formed self"
  shows "\<exists>r self'. handlers_by_type ty self now = Inr (r, self') \<and>
           ((r = suppress \<and> (\<forall>L. r \<noteq> emit L) \<and> self' = self) \<or>
            (\<exists>L. 1 \<le> L \<and> L \<le> 5 \<and> r = emit L \<and> r \<noteq> suppress \<and>
                 only_slot_written self self' L now))"
    (is "?goal ty")
proof -
  from assms have len: "length (time_of_last_click self) = 6"
    by (simp add: well_formed_def)
  have suppressed: "?goal ty" if "handlers_by_type ty self now = Inr (suppress, self)" for ty
    using that by (simp add: emit_def suppress_def)
  have emitted: "?goal ty"
    if "handlers_by_type ty self now = Inr (emit L, set_slot self L now)" "1 \<le> L" "L \<le> 5"
    for ty L
  proof -
    from that(3) len have "only_slot_written self (set_slot self L now) L now"
      by (simp add: only_slot_written_set_slot)
    with that show ?thesis
      by (auto simp: emit_neq_suppress)
  qed
  show ?thesis
  proof (cases ty)
    case GDK_BUTTON_PRESS
    have eq: "handlers_by_type ty self now = Inr
       (if now - slot self 4 < double_click_time self then (emit 5, set_slot self 5 now)
        else if now - slot self 3 < double_click_time self then (emit 4, set_slot self 4 now)
        else if now - slot self 2 < double_click_time self then (suppress, self)
        else if now - slot self 1 < double_click_time self then (suppress, self)
        else (emit 1, set_slot self 1 now))"
      using assms GDK_BUTTON_PRESS by (simp add: handle_1button_press_wf)
    consider "handlers_by_type ty self now = Inr (emit 5, set_slot self 5 now)"
      | "handlers_by_type ty self now = Inr (emit 4, set_slot self 4 now)"
      | "handlers_by_type ty self now = Inr (suppress, self)"
      | "handlers_by_type ty self now = Inr (emit 1, set_slot self 1 now)"
      unfolding eq by atomize_elim simp
    then show ?thesis
    proof cases
      case 1 then show ?thesis by (rule emitted) simp_all
    next
      case 2 then show ?thesis by (rule emitted) simp_all
    next
      case 3 then show ?thesis by (rule suppressed)
    next
      case 4 then show ?thesis by (rule emitted) simp_all
    qed
  next
    case GDK_2BUTTON_PRESS
    have eq: "handlers_by_type ty self now = Inr
       (if now - slot self 4 < double_click_time self then (suppress, self)
        else (emit 2, set_slot self 2 now))"
      using assms GDK_2BUTTON_PRESS by (simp add: handle_2button_press_wf)
    consider "handlers_by_type ty self now = Inr (suppress, self)"
      | "handlers_by_type ty self now = Inr (emit 2, set_slot self 2 now)"
      unfolding eq by atomize_elim simp
    then show ?thesis
    proof cases
      case 1 then show ?thesis by (rule suppressed)
    next
      case 2 then show ?thesis by (rule emitted) simp_all
    qed
  next
    case GDK_3BUTTON_PRESS
    have eq: "handlers_by_type ty self now = Inr
       (if now - slot self 5 < double_click_time self then (suppress, self)
        else (emit 3, set_slot self 3 now))"
      using assms GDK_3BUTTON_PRESS by (simp add: handle_3button_press_wf)
    consider "handlers_by_type ty self now = Inr (suppress, self)"
      | "handlers_by_type ty self now = Inr (emit 3, set_slot self 3 now)"
      unfolding eq by atomize_elim simp
    then show ?thesis
    proof cases
      case 1 then show ?thesis by (rule suppressed)
    next
      case 2 then show ?thesis by (rule emitted) simp_all
    qed
  qed
qed

theorem press_writes_at_most_one_slot_witness:
  "well_formed (init_helper 400) \<and>
   handlers_by_type GDK_2BUTTON_PRESS (init_helper 400) 1000
     = Inr (emit 2, set_slot (init_helper 400) 2 1000) \<and>
   only_slot_written (init_helper 400) (set_slot (init_helper 400) 2 1000) 2 1000"
proof -
  from press_writes_at_most_one_slot [OF well_formed_init, of GDK_2BUTTON_PRESS 400 1000]
  obtain r self' where
    h: "handle_2button_press (init_helper 400) 1000 = Inr (r, self')"
    and d: "(r = suppress \<and> self' = init_helper 400) \<or>
         (\<exists>L. r = emit L \<and> only_slot_written (init_helper 400) self' L 1000)"
    by auto
  have e: "handle_2button_press (init_helper 400) 1000
             = Inr (emit 2, set_slot (init_helper 400) 2 1000)"
    by (simp add: handle_2button_press_wf well_formed_init slot_init double_click_time_init)
  from h e have "r = emit 2" "self' = set_slot (init_helper 400) 2 1000"
    by simp_all
  with d have "only_slot_written (init_helper 400) (set_slot (init_helper 400) 2 1000) 2 1000"
    by (auto simp: emit_def suppress_def)
  with e show ?thesis
    by (simp add: well_formed_init)
qed

subsection \<open>A clock that went backward\<close>

text \<open>
  The instances \<open>single_clicked\<close>, \<open>triple_clicked\<close> and \<open>quintuple_clicked\<close> are what
  a new instance becomes after the presses of a single, a triple and a quintuple click,
  in the order in which GTK delivers them.
\<close>

lemma press_sequence_reaches_single_clicked:
  "press_sequence (init_helper 400) [(GDK_BUTTON_PRESS, 1000)]
   = Inr ([emit 1], single_clicked)"
  by (simp add: init_helper_def single_clicked_def handle_1button_press_def
      since_last_click_def record_click_def emit_def)

lemma press_sequence_reaches_triple_clicked:
  "press_sequence (init_helper 400)
     [(GDK_BUTTON_PRESS, 1000),
      (GDK_BUTTON_PRESS, 1000.1), (GDK_2BUTTON_PRESS, 1000.1),
      (GDK_BUTTON_PRESS, 1000.2), (GDK_3BUTTON_PRESS, 1000.2)]
   = Inr ([emit 1, suppress, emit 2, suppress, emit 3], triple_clicked)"
  by (simp add: init_helper_def triple_clicked_def handle_1button_press_def
      handle_2button_press_def handle_3button_press_def since_last_click_def record_click_def
      emit_def suppress_def)

lemma press_sequence_reaches_quintuple_clicked:
  "press_sequence (init_helper 400)
     [(GDK_BUTTON_PRESS, 100),
      (GDK_BUTTON_PRESS, 100.1), (GDK_2BUTTON_PRESS, 100.1),
      (GDK_BUTTON_PRESS, 100.2), (GDK_3BUTTON_PRESS, 100.2),
      (GDK_BUTTON_PRESS, 100.3),
      (GDK_BUTTON_PRESS, 100.4), (GDK_2BUTTON_PRESS, 100.4)]
   = Inr ([emit 1, suppress, emit 2, suppress, emit 3, emit 4, emit 5, suppress],
          quintuple_clicked)"
  by (simp add: init_helper_def quintuple_clicked_def handle_1button_press_def
      handle_2button_press_def handle_3button_press_def since_last_click_def record_click_def
      emit_def suppress_def)

lemma well_formed_single_clicked: "well_formed single_clicked"
  by (simp add: well_formed_def single_clicked_def)

lemma well_formed_triple_clicked: "well_formed triple_clicked"
  by (simp add: well_formed_def triple_clicked_def)

lemma slot_single_clicked:
  "slot single_clicked 1 = 1000" "slot single_clicked 2 = 0" "slot single_clicked 3 = 0"
  "slot single_clicked 4 = 0" "slot single_clicked 5 = 0"
  "double_click_time single_clicked = 0.4"
  by (simp_all add: slot_def single_clicked_def)

lemma slot_triple_clicked:
  "slot triple_clicked 1 = 1000" "slot triple_clicked 2 = 1000.1"
  "slot triple_clicked 3 = 1000.2" "slot triple_clicked 4 = 0" "slot triple_clicked 5 = 0"
  "double_click_time triple_clicked = 0.4"
  by (simp_all add: slot_def triple_clicked_def)

lemma ball_levels:
  assumes "P 1" "P 2" "P 3" "P 4" "P 5"
  shows "\<forall>L \<in> {1..5::nat}. P L"
proof
  fix L :: nat
  assume "L \<in> {1..5}"
  then have "L = 1 \<or> L = 2 \<or> L = 3 \<or> L = 4 \<or> L = 5"
    by auto
  with assms show "P L"
    by blast
qed

text \<open>
  Claim C4 says that a \<open>now\<close> earlier than every recorded click time fails every interval
  check, so that the single-press handler reports level 1 or suppresses. The handlers
  compare the signed difference \<open>now - t\<close> with the interval: for \<open>now < t\<close> it is
  negative, and the check holds. At time 50, after a quintuple click at time 100, the
  press is reported as level 5.
\<close>

theorem clock_backward_counterexample:
  "well_formed quintuple_clicked \<and>
   50 < slot quintuple_clicked 1 \<and> 50 < slot quintuple_clicked 2 \<and>
   50 < slot quintuple_clicked 3 \<and> 50 < slot quintuple_clicked 4 \<and>
   50 < slot quintuple_clicked 5 \<and>
   50 - slot quintuple_clicked 4 < double_click_time quintuple_clicked \<and>
   handle_1button_press quintuple_clicked 50 = Inr (emit 5, set_slot quintuple_clicked 5 50) \<and>
   emit 5 \<noteq> emit 1 \<and> emit 5 \<noteq> suppress"
  by (simp add: handle_1button_press_wf well_formed_quintuple_clicked slot_quintuple_clicked
      emit_def suppress_def del: One_nat_def)

text \<open>
  Claim C4, amended. Take any instance with a non-negative interval and any \<open>now\<close> that
  is earlier than every recorded click time, that is, earlier than the time in every
  entry that no longer holds the initial value. Then the interval check of an entry that
  has been written holds (the difference is negative), and the check of an entry that
  has not been written holds only for a \<open>now\<close> below the interval. The single-press
  handler returns without an exception and goes by the written entries in its order:
  it records entry 5 and reports level 5 when entry 4 has been written (or \<open>now\<close> is
  below the interval), else records entry 4 and reports level 4 when entry 3 has been
  written, else suppresses when entry 2 or entry 1 has been written, else records
  entry 1 and reports level 1. So it reports level 1 or suppresses, as the claim says,
  when neither entry 4 nor entry 3 has been written and \<open>now\<close> is not below the interval;
  otherwise it reports level 5 or level 4.
\<close>

theorem clock_backward_follows_written_slots:
  assumes "well_formed self"
    and "0 \<le> double_click_time self"
    and "\<forall>L \<in> {1..5}. slot self L \<noteq> no_previous_click \<longrightarrow> now < slot self L"
  shows "(\<forall>L \<in> {1..5}. now - slot self L < double_click_time self \<longleftrightarrow>
            slot self L \<noteq> no_previous_click \<or> now < double_click_time self) \<and>
         handle_1button_press self now = Inr
           (if slot self 4 \<noteq> no_previous_click \<or> now < double_click_time self
              then (emit 5, set_slot self 5 now)
            else if slot self 3 \<noteq> no_previous_click then (emit 4, set_slot self 4 now)
            else if slot self 2 \<noteq> no_previous_click \<or> slot self 1 \<noteq> no_previous_click
              then (suppress, self)
            else (emit 1, set_slot self 1 now))"
proof -
  have chk: "now - slot self L < double_click_time self \<longleftrightarrow>
             slot self L \<noteq> no_previous_click \<or> now < double_click_time self"
    if "L \<in> {1..5}" for L
  proof (cases "slot self L = no_previous_click")
    case True
    then show ?thesis
      by (simp add: no_previous_click_def)
  next
    case False
    with assms(3) that have "now < slot self L"
      by blast
    with assms(2) False show ?thesis
      by simp
  qed
  have c4: "now - slot self 4 < double_click_time self \<longleftrightarrow>
            slot self 4 \<noteq> no_previous_click \<or> now < double_click_time self"
    and c3: "now - slot self 3 < double_click_time self \<longleftrightarrow>
            slot self 3 \<noteq> no_previous_click \<or> now < double_click_time self"
    and c2: "now - slot self 2 < double_click_time self \<longleftrightarrow>
            slot self 2 \<noteq> no_previous_click \<or> now < double_click_time self"
    and c1: "now - slot self 1 < double_click_time self \<longleftrightarrow>
            slot self 1 \<noteq> no_previous_click \<or> now < double_click_time self"
    by (simp_all add: chk)
  have "handle_1button_press self now = Inr
           (if slot self 4 \<noteq> no_previous_click \<or> now < double_click_time self
              then (emit 5, set_slot self 5 now)
            else if slot self 3 \<noteq> no_previous_click then (emit 4, set_slot self 4 now)
            else if slot self 2 \<noteq> no_previous_click \<or> slot self 1 \<noteq> no_previous_click
              then (suppress, self)
            else (emit 1, set_slot self 1 now))"
    unfolding handle_1button_press_wf [OF assms(1)] c4 c3 c2 c1
    by (cases "now < double_click_time self") simp_all
  with chk show ?thesis
    by blast
qed

theorem clock_backward_follows_written_slots_witness:
  "well_formed single_clicked \<and> 0 \<le> double_click_time single_clicked \<and>
   900 < slot single_clicked 1 \<and> slot single_clicked 2 = no_previous_click \<and>
   slot single_clicked 3 = no_previous_click \<and> slot single_clicked 4 = no_previous_click \<and>
   slot single_clicked 5 = no_previous_click \<and>
   handle_1button_press single_clicked 900 = Inr (suppress, single_clicked) \<and>
   well_formed triple_clicked \<and> 0 \<le> double_click_time triple_clicked \<and>
   900 < slot triple_clicked 1 \<and> 900 < slot triple_clicked 2 \<and>
   900 < slot triple_clicked 3 \<and> slot triple_clicked 4 = no_previous_click \<and>
   slot triple_clicked 5 = no_previous_click \<and>
   handle_1button_press triple_clicked 900 = Inr (emit 4, set_slot triple_clicked 4 900) \<and>
   well_formed quintuple_clicked \<and> 0 \<le> double_click_time quintuple_clicked \<and>
   50 < slot quintuple_clicked 1 \<and> 50 < slot quintuple_clicked 2 \<and>
   50 < slot quintuple_clicked 3 \<and> 50 < slot quintuple_clicked 4 \<and>
   50 < slot quintuple_clicked 5 \<and>
   handle_1button_press quintuple_clicked 50 = Inr (emit 5, set_slot quintuple_clicked 5 50)"
proof -
  have s: "0 \<le> double_click_time single_clicked"
    "900 < slot single_clicked 1" "slot single_clicked 2 = no_previous_click"
    "slot single_clicked 3 = no_previous_click" "slot single_clicked 4 = no_previous_click"
    "slot single_clicked 5 = no_previous_click"
    by (simp_all add: slot_single_clicked no_previous_click_def del: One_nat_def)
  have t: "0 \<le> double_click_time triple_clicked"
    "900 < slot triple_clicked 1" "900 < slot triple_clicked 2" "900 < slot triple_clicked 3"
    "slot triple_clicked 4 = no_previous_click" "slot triple_clicked 5 = no_previous_click"
    by (simp_all add: slot_triple_clicked no_previous_click_def del: One_nat_def)
  have q: "0 \<le> double_click_time quintuple_clicked"
    "50 < slot quintuple_clicked 1" "50 < slot quintuple_clicked 2"
    "50 < slot quintuple_clicked 3" "50 < slot quintuple_clicked 4"
    "50 < slot quintuple_clicked 5"
    by (simp_all add: slot_quintuple_clicked del: One_nat_def)
  have hs: "\<forall>L \<in> {1..5}. slot single_clicked L \<noteq> no_previous_click
              \<longrightarrow> 900 < slot single_clicked L"
    by (rule ball_levels)
      (simp_all add: slot_single_clicked no_previous_click_def del: One_nat_def)
  have ht: "\<forall>L \<in> {1..5}. slot triple_clicked L \<noteq> no_previous_click
              \<longrightarrow> 900 < slot triple_clicked L"
    by (rule ball_levels)
      (simp_all add: slot_triple_clicked no_previous_click_def del: One_nat_def)
  have hq: "\<forall>L \<in> {1..5}. slot quintuple_clicked L \<noteq> no_previous_click
              \<longrightarrow> 50 < slot quintuple_clicked L"
    by (rule ball_levels)
      (simp_all add: slot_quintuple_clicked no_previous_click_def del: One_nat_def)
  have nq: "slot quintuple_clicked 4 \<noteq> no_previous_click"
    by (simp add: slot_quintuple_clicked no_previous_click_def)
  have nt: "slot triple_clicked 3 \<noteq> no_previous_click"
    by (simp add: slot_triple_clicked no_previous_click_def)
  have ns: "slot single_clicked 1 \<noteq> no_previous_click"
    by (simp add: slot_single_clicked no_previous_click_def del: One_nat_def)
  have ds: "\<not> (900::real) < double_click_time single_clicked"
    "\<not> (900::real) < double_click_time triple_clicked"
    by (simp_all add: slot_single_clicked slot_triple_clicked)
  from clock_backward_follows_written_slots [OF well_formed_single_clicked s(1) hs]
  have r1: "handle_1button_press single_clicked 900 = Inr (suppress, single_clicked)"
    using s ns ds by (simp del: One_nat_def)
  from clock_backward_follows_written_slots [OF well_formed_triple_clicked t(1) ht]
  have r2: "handle_1button_press triple_clicked 900 = Inr (emit 4, set_slot triple_clicked 4 900)"
    using t nt ds by (simp del: One_nat_def)
  from clock_backward_follows_written_slots [OF well_formed_quintuple_clicked q(1) hq]
  have r3: "handle_1button_press quintuple_clicked 50
              = Inr (emit 5, set_slot quintuple_clicked 5 50)"
    using nq by simp
  from r1 r2 r3 s t q well_formed_single_clicked well_formed_triple_clicked
    well_formed_quintuple_clicked
  show ?thesis
    by (simp only: simp_thms)
qed

subsection \<open>Entries that have never been written\<close>

text \<open>
  Claim C5 says that for every \<open>now\<close> the interval check of an entry that still holds the
  initial value fails. The initial value is the number 0, so the check is
  \<open>now - 0 < interval\<close>, which holds for a \<open>now\<close> below the interval: on a new instance
  with an interval of 0.4 seconds, a single press at time 0.1 is reported as level 5.
\<close>

theorem sentinel_counterexample:
  "slot (init_helper 400) 4 = no_previous_click \<and>
   0.1 - slot (init_helper 400) 4 < double_click_time (init_helper 400) \<and>
   handle_1button_press (init_helper 400) 0.1 = Inr (emit 5, set_slot (init_helper 400) 5 0.1)"
  by (simp add: handle_1button_press_wf well_formed_init slot_init double_click_time_init
      no_previous_click_def)

text \<open>
  Claim C5, amended. For every \<open>now\<close> that is not below the interval (as every clock time
  of \<^verbatim>\<open>time.time()\<close> is), the interval check of an entry that still holds the initial
  value fails, and such an entry causes neither a multi-click level nor a suppression:
  level 5 is reported only when entry 4 has been written, level 4 only when entry 3 has,
  the single-press handler suppresses only on account of a written entry 2 or 1, the
  double-press handler only when entry 4 has been written, and the triple-press handler
  only when entry 5 has.
\<close>

theorem sentinel_outside_interval:
  assumes "well_formed self"
    and "double_click_time self \<le> now"
  shows "(\<forall>L \<in> {1..5}. slot self L = no_previous_click \<longrightarrow>
            \<not> now - slot self L < double_click_time self) \<and>
         (\<forall>self'. handle_1button_press self now = Inr (emit 5, self') \<longrightarrow>
            slot self 4 \<noteq> no_previous_click) \<and>
         (\<forall>self'. handle_1button_press self now = Inr (emit 4, self') \<longrightarrow>
            slot self 3 \<noteq> no_previous_click) \<and>
         (\<forall>self'. handle_1button_press self now = Inr (suppress, self') \<longrightarrow>
            (now - slot self 2 < double_click_time self \<and> slot self 2 \<noteq> no_previous_click) \<or>
            (now - slot self 1 < double_click_time self \<and> slot self 1 \<noteq> no_previous_click)) \<and>
         (\<forall>self'. handle_2button_press self now = Inr (suppress, self') \<longrightarrow>
            slot self 4 \<noteq> no_previous_click) \<and>
         (\<forall>self'. handle_3button_press self now = Inr (suppress, self') \<longrightarrow>
            slot self 5 \<noteq> no_previous_click)"
proof -
  have chk: "\<not> now - slot self L < double_click_time self"
    if "slot self L = no_previous_click" for L
    using assms(2) that by (simp add: no_previous_click_def)
  have e: "emit a = emit b \<longleftrightarrow> a = b" for a b
    by (simp add: emit_def)
  have ne: "suppress \<noteq> emit a" for a
    by (simp add: emit_def suppress_def)
  have c1: "\<forall>L \<in> {1..5}. slot self L = no_previous_click \<longrightarrow>
            \<not> now - slot self L < double_click_time self"
    using chk by blast
  have c2: "\<forall>self'. handle_1button_press self now = Inr (emit 5, self') \<longrightarrow>
            slot self 4 \<noteq> no_previous_click"
    using assms(1) chk [of 4]
    by (auto simp: handle_1button_press_wf emit_neq_suppress ne e split: if_splits)
  have c3: "\<forall>self'. handle_1button_press self now = Inr (emit 4, self') \<longrightarrow>
            slot self 3 \<noteq> no_previous_click"
    using assms(1) chk [of 3]
    by (auto simp: handle_1button_press_wf emit_neq_suppress ne e split: if_splits)
  have c4: "\<forall>self'. handle_1button_press self now = Inr (suppress, self') \<longrightarrow>
            (now - slot self 2 < double_click_time self \<and> slot self 2 \<noteq> no_previous_click) \<or>
            (now - slot self 1 < double_click_time self \<and> slot self 1 \<noteq> no_previous_click)"
    using assms(1) chk [of 2] chk [of 1] emit_neq_suppress
    by (auto simp: handle_1button_press_wf split: if_splits)
  have c5: "\<forall>self'. handle_2button_press self now = Inr (suppress, self') \<longrightarrow>
            slot self 4 \<noteq> no_previous_click"
    using assms(1) chk [of 4] emit_neq_suppress
    by (auto simp: handle_2button_press_wf split: if_splits)
  have c6: "\<forall>self'. handle_3button_press self now = Inr (suppress, self') \<longrightarrow>
            slot self 5 \<noteq> no_previous_click"
    using assms(1) chk [of 5] emit_neq_suppress
    by (auto simp: handle_3button_press_wf split: if_splits)
  from c1 c2 c3 c4 c5 c6 show ?thesis
    by blast
qed

theorem sentinel_outside_interval_witness:
  "well_formed (init_helper 400) \<and> double_click_time (init_helper 400) \<le> 1000 \<and>
   slot (init_helper 400) 4 = no_previous_click \<and>
   \<not> 1000 - slot (init_helper 400) 4 < double_click_time (init_helper 400)"
proof -
  have a: "double_click_time (init_helper 400) \<le> 1000"
    by (simp add: double_click_time_init)
  have s: "slot (init_helper 400) 4 = no_previous_click"
    by (simp add: slot_init no_previous_click_def)
  from sentinel_outside_interval [OF well_formed_init a] s
  have "\<not> 1000 - slot (init_helper 400) 4 < double_click_time (init_helper 400)"
    by auto
  with a s show ?thesis
    by (simp only: well_formed_init simp_thms)
qed

subsection \<open>The sequence single, double, single\<close>

text \<open>
  Claim C7 says that on a new instance with an interval of 0.4 seconds, a single press at
  time 0, a double press at time 0.1 and a single press at time 0.15 give level 1,
  level 2 and a suppression. Time 0 is the initial value of the entries, so the first
  press is within the interval of entry 4 and is reported as level 5; the outcomes are
  level 5, suppression, level 5.
\<close>

theorem spec_sequence_counterexample:
  "press_outcomes (init_helper 400)
     [(GDK_BUTTON_PRESS, 0), (GDK_2BUTTON_PRESS, 0.1), (GDK_BUTTON_PRESS, 0.15)]
   = Inr [emit 5, suppress, emit 5] \<and>
   press_outcomes (init_helper 400)
     [(GDK_BUTTON_PRESS, 0), (GDK_2BUTTON_PRESS, 0.1), (GDK_BUTTON_PRESS, 0.15)]
   \<noteq> Inr [emit 1, emit 2, suppress]"
  by (simp add: press_outcomes_def init_helper_def handle_1button_press_def
      handle_2button_press_def handle_3button_press_def since_last_click_def record_click_def
      emit_def suppress_def)

lemma slot_set_slot:
  assumes "well_formed self" "1 \<le> L" "L \<le> 5" "1 \<le> K" "K \<le> 5"
  shows "slot (set_slot self L now) K = (if K = L then now else slot self K)"
  using assms by (simp add: slot_def set_slot_def well_formed_def)

lemma double_click_time_set_slot:
  "double_click_time (set_slot self L now) = double_click_time self"
  by (simp add: set_slot_def)

text \<open>
  Claim C7, amended. On a new instance with an interval of 0.4 seconds and for every start
  time \<open>t\<close> of at least 0.4, a single press at \<open>t\<close>, a double press at \<open>t + 0.1\<close> and
  a single press at \<open>t + 0.15\<close> give level 1, level 2 and a suppression.
\<close>

theorem single_double_single:
  assumes "0.4 \<le> t"
  shows "press_outcomes (init_helper 400)
           [(GDK_BUTTON_PRESS, t), (GDK_2BUTTON_PRESS, t + 0.1), (GDK_BUTTON_PRESS, t + 0.15)]
         = Inr [emit 1, emit 2, suppress]"
proof -
  let ?s0 = "init_helper 400"
  let ?s1 = "set_slot ?s0 1 t"
  let ?s2 = "set_slot ?s1 2 (t + 0.1)"
  have wf1: "well_formed ?s1"
    by (simp add: well_formed_set_slot well_formed_init)
  then have wf2: "well_formed ?s2"
    by (simp add: well_formed_set_slot)
  have p1: "handle_1button_press ?s0 t = Inr (emit 1, ?s1)"
    using assms
    by (simp add: handle_1button_press_wf well_formed_init slot_init double_click_time_init)
  have p2: "handle_2button_press ?s1 (t + 0.1) = Inr (emit 2, ?s2)"
    using assms
    by (simp add: handle_2button_press_wf wf1 slot_set_slot well_formed_init slot_init
        double_click_time_set_slot double_click_time_init del: One_nat_def)
  have p3: "handle_1button_press ?s2 (t + 0.15) = Inr (suppress, ?s2)"
    using assms
    by (simp add: handle_1button_press_wf wf2 wf1 slot_set_slot well_formed_init slot_init
        double_click_time_set_slot double_click_time_init del: One_nat_def)
  show ?thesis
    by (simp only: press_outcomes_def press_sequence.simps handlers_by_type.simps p1 p2 p3
        sum.case prod.case)
qed

theorem single_double_single_witness:
  "(0.4::real) \<le> 1000 \<and>
   press_outcomes (init_helper 400)
     [(GDK_BUTTON_PRESS, 1000), (GDK_2BUTTON_PRESS, 1000.1), (GDK_BUTTON_PRESS, 1000.15)]
   = Inr [emit 1, emit 2, suppress]"
proof -
  have h: "(0.4::real) \<le> 1000" by simp
  from single_double_single [OF h] h show ?thesis
    by simp
qed

section \<open>Facts about the search for the match\<close>

subsection \<open>Spans of the pattern model\<close>

text \<open>
  A match of the model that starts within the text ends within the text, and the search
  returns a span that lies within the text, starts at or after the start position and is
  one of the matches the matcher finds there.
\<close>

lemma ends_within:
  assumes "i \<le> length T" "j \<in> set (ends fl r T i)"
  shows "i \<le> j \<and> j \<le> length T"
  using assms
proof (induction fl r T i arbitrary: j rule: ends.induct)
  case (1 fl c T i)
  then show ?case
    by (simp split: if_splits)
next
  case (2 fl T i)
  then show ?case
    by (simp split: if_splits)
next
  case (3 fl rs T i)
  then show ?case
    by (simp split: if_splits)
next
  case (4 fl T i)
  then show ?case
    by (simp split: if_splits)
next
  case (5 fl T i)
  then show ?case
    by (simp split: if_splits)
next
  case (7 fl r1 r2 T i)
  from "7.prems"(2) have "j \<in> set (ends fl r1 T i) \<or> j \<in> set (ends fl r2 T i)"
    by (simp only: ends.simps set_append Un_iff)
  with "7.IH" "7.prems"(1) show ?case
    by blast
next
  case (6 fl r1 r2 T i)
  from "6.prems"(2) have "j \<in> set (concat (map (ends fl r2 T) (ends fl r1 T i)))"
    by (simp only: ends.simps)
  then obtain k where k: "k \<in> set (ends fl r1 T i)"
    and j: "j \<in> set (ends fl r2 T k)"
    by (auto simp del: ends.simps)
  from "6.IH"(1) [OF "6.prems"(1) k] have ik: "i \<le> k" "k \<le> length T"
    by simp_all
  from "6.IH"(2) [OF k ik(2) j] ik show ?case
    by simp
next
  case (8 fl r T i)
  let ?next = "filter (\<lambda>j. i < j \<and> j \<le> length T) (ends fl r T i)"
  from "8.prems"(2) have "j \<in> set (concat (map (ends fl (Star r) T) ?next) @ [i])"
    by (simp only: ends.simps)
  then consider "j = i" | k where "k \<in> set ?next" "j \<in> set (ends fl (Star r) T k)"
    by (auto simp del: ends.simps)
  then show ?case
  proof cases
    case 1
    with "8.prems"(1) show ?thesis
      by simp
  next
    case (2 k)
    from 2(1) have ik: "i < k" "k \<le> length T"
      by simp_all
    from "8.IH"(2) [OF 2(1) ik(2) 2(2)] ik show ?thesis
      by simp
  qed
qed

lemma find_Some_mem:
  assumes "List.find P xs = Some x"
  shows "P x" "x \<in> set xs"
  using assms by (induction xs) (auto split: if_splits)

lemma re_search_within:
  assumes "re_search fl r T pos = Some (s, e)"
  shows "min pos (length T) \<le> s \<and> s \<le> e \<and> e \<le> length T \<and> e \<in> set (ends fl r T s)"
proof -
  let ?start = "min pos (length T)"
  from assms obtain s' where
    f: "List.find (\<lambda>s. ends fl r T s \<noteq> []) [?start..<Suc (length T)] = Some s'"
    and se: "(s, e) = (s', hd (ends fl r T s'))"
    by (auto simp: re_search_def simp del: ends.simps split: option.splits)
  from f have ne: "ends fl r T s' \<noteq> []"
    by (rule find_Some_mem(1))
  from f have mem: "s' \<in> set [?start..<Suc (length T)]"
    by (rule find_Some_mem(2))
  from se have s: "s = s'" and e: "e = hd (ends fl r T s)"
    by simp_all
  from ne s e have "e \<in> set (ends fl r T s)"
    by simp
  moreover from mem s have "?start \<le> s" "s \<le> length T"
    by auto
  ultimately show ?thesis
    using ends_within [of s T e fl r] by simp
qed

subsection \<open>The span that is found\<close>

lemma find_text_loop_found:
  assumes "find_text_loop T p re pos prev = Some r"
  shows "fst r \<longrightarrow> fst (snd r) \<le> p \<and> p < snd (snd r) \<and> is_match re T (snd r)"
proof (rule find_text_loop.raw_induct
    [where P = "\<lambda>T p re pos prev r.
                  fst r \<longrightarrow> fst (snd r) \<le> p \<and> p < snd (snd r) \<and> is_match re T (snd r)",
     OF _ assms], goal_cases)
  case (1 f T p re pos prev r)
  show ?case
  proof (cases "pos = length T")
    case True
    with 1(2) have "r = (False, prev)"
      by simp
    then show ?thesis
      by simp
  next
    case running: False
    show ?thesis
    proof (cases "re T pos")
      case None
      with running 1(2) have "r = (False, prev)"
        by simp
      then show ?thesis
        by simp
    next
      case (Some m)
      then have m: "is_match re T m"
        unfolding is_match_def by blast
      show ?thesis
      proof (cases "fst m \<le> p \<and> p < snd m")
        case True
        with running Some 1(2) have "r = (True, m)"
          by simp
        with True m show ?thesis
          by simp
      next
        case outside: False
        show ?thesis
        proof (cases "p < fst m")
          case True
          with running Some outside 1(2) have "r = (False, m)"
            by simp
          then show ?thesis
            by simp
        next
          case False
          with running Some outside 1(2) have
            "f T p re ((if pos < fst m then fst m else pos) + 1) m = Some r"
            by simp
          then show ?thesis
            by (rule 1(1))
        qed
      qed
    qed
  qed
qed

text \<open>
  Claim C1. For every text \<open>T\<close>, every offset \<open>p\<close> and every compiled pattern, if
  \<^verbatim>\<open>_find_text(T, p, pattern)\<close> returns \<^verbatim>\<open>found = True\<close> with the span
  \<open>(match_start, match_end)\<close>, then \<open>match_start \<le> p < match_end\<close> and the span is a
  match of the pattern in \<open>T\<close>, so that \<^verbatim>\<open>T[match_start:match_end]\<close> is the matched text.
\<close>

theorem find_text_found:
  assumes "find_text T p word_re = Some (True, match_start, match_end)"
  shows "match_start \<le> p \<and> p < match_end \<and> is_match word_re T (match_start, match_end)"
  using find_text_loop_found [of T p word_re 0 "(0, 0)" "(True, match_start, match_end)"] assms
  by (simp add: find_text_def)

theorem find_text_found_witness:
  "find_text ''foo_bar baz'' 4 (re_search no_flags name_chars) = Some (True, 0, 7) \<and>
   (0::nat) \<le> 4 \<and> (4::nat) < 7 \<and>
   is_match (re_search no_flags name_chars) ''foo_bar baz'' (0, 7) \<and>
   slice ''foo_bar baz'' 0 7 = ''foo_bar''"
proof -
  have h: "find_text ''foo_bar baz'' 4 (re_search no_flags name_chars) = Some (True, 0, 7)"
    by code_simp
  have s: "slice ''foo_bar baz'' 0 7 = ''foo_bar''"
    by (simp add: slice_def)
  from find_text_found [OF h] h s show ?thesis
    by simp
qed

subsection \<open>The selection "Line+" on two lines\<close>

lemma line_plus_at_9:
  "find_text two_lines 9 (re_search flag_M line_plus) = Some (True, 9, 18)"
  by code_simp

lemma line_plus_at_10:
  "find_text two_lines 10 (re_search flag_M line_plus) = Some (True, 9, 18)"
  by code_simp

lemma line_plus_at_11:
  "find_text two_lines 11 (re_search flag_M line_plus) = Some (True, 9, 18)"
  by code_simp

lemma line_plus_at_12:
  "find_text two_lines 12 (re_search flag_M line_plus) = Some (True, 9, 18)"
  by code_simp

lemma line_plus_at_13:
  "find_text two_lines 13 (re_search flag_M line_plus) = Some (True, 9, 18)"
  by code_simp

lemma line_plus_at_14:
  "find_text two_lines 14 (re_search flag_M line_plus) = Some (True, 9, 18)"
  by code_simp

lemma line_plus_at_15:
  "find_text two_lines 15 (re_search flag_M line_plus) = Some (True, 9, 18)"
  by code_simp

lemma line_plus_at_16:
  "find_text two_lines 16 (re_search flag_M line_plus) = Some (True, 9, 18)"
  by code_simp

lemma line_plus_at_17:
  "find_text two_lines 17 (re_search flag_M line_plus) = Some (True, 9, 18)"
  by code_simp

lemmas line_plus_at =
  line_plus_at_9 line_plus_at_10 line_plus_at_11 line_plus_at_12 line_plus_at_13
  line_plus_at_14 line_plus_at_15 line_plus_at_16 line_plus_at_17

text \<open>
  Claim C8. For the text \<^verbatim>\<open>"line one\nline two\n"\<close>, the pattern \<^verbatim>\<open>^.*\n\<close> compiled with
  the multi-line flag and every pick offset in the second line (offsets 9 to 17),
  \<^verbatim>\<open>_find_text\<close> returns \<^verbatim>\<open>found = True\<close> with the span \<open>(9, 18)\<close>, which covers exactly
  \<^verbatim>\<open>"line two\n"\<close>.
\<close>

theorem line_plus_second_line:
  assumes "9 \<le> p" "p < 18"
  shows "find_text two_lines p (re_search flag_M line_plus) = Some (True, 9, 18) \<and>
         slice two_lines 9 18 = ''line two\<newline>''"
proof -
  from assms have "p = 9 \<or> p = 10 \<or> p = 11 \<or> p = 12 \<or> p = 13 \<or> p = 14 \<or> p = 15
      \<or> p = 16 \<or> p = 17"
    by arith
  then have "find_text two_lines p (re_search flag_M line_plus) = Some (True, 9, 18)"
    by (elim disjE) (simp_all only: line_plus_at)
  moreover have "slice two_lines 9 18 = ''line two\<newline>''"
    by (simp add: slice_def two_lines_def)
  ultimately show ?thesis ..
qed

theorem line_plus_second_line_witness:
  "(9::nat) \<le> 12 \<and> (12::nat) < 18 \<and>
   find_text two_lines 12 (re_search flag_M line_plus) = Some (True, 9, 18) \<and>
   slice two_lines 9 18 = ''line two\<newline>''"
  using line_plus_second_line [of 12] by simp

subsection \<open>When the loop ends and when it does not\<close>

text \<open>
  For a pick offset inside the text the loop ends, whatever the pattern does: the cursor
  only moves past a match that starts at or before the pick offset, so it stays within
  the text and reaches its end.
\<close>

lemma find_text_loop_returns:
  assumes "p < length T" "pos \<le> length T"
  shows "\<exists>r. find_text_loop T p re pos prev = Some r"
  using assms(2)
proof (induction "length T - pos" arbitrary: pos prev rule: less_induct)
  case less
  show ?case
  proof (cases "pos = length T")
    case True
    then have "find_text_loop T p re pos prev = Some (False, prev)"
      by (subst find_text_loop.simps) simp
    then show ?thesis ..
  next
    case False
    with less.prems have lt: "pos < length T"
      by simp
    show ?thesis
    proof (cases "re T pos")
      case None
      with False have "find_text_loop T p re pos prev = Some (False, prev)"
        by (subst find_text_loop.simps) simp
      then show ?thesis ..
    next
      case (Some m)
      let ?pos' = "(if pos < fst m then fst m else pos) + 1"
      consider "fst m \<le> p \<and> p < snd m" | "\<not> (fst m \<le> p \<and> p < snd m)" "p < fst m"
        | "\<not> (fst m \<le> p \<and> p < snd m)" "\<not> p < fst m"
        by blast
      then show ?thesis
      proof cases
        case 1
        with False Some have "find_text_loop T p re pos prev = Some (True, m)"
          by (subst find_text_loop.simps) simp
        then show ?thesis ..
      next
        case 2
        with False Some have "find_text_loop T p re pos prev = Some (False, m)"
          by (subst find_text_loop.simps) simp
        then show ?thesis ..
      next
        case 3
        from 3(2) assms(1) lt have le: "?pos' \<le> length T"
          by simp
        from lt have "length T - ?pos' < length T - pos"
          by auto
        from less.hyps [OF this le] obtain r where
          r: "find_text_loop T p re ?pos' m = Some r"
          by blast
        from False Some 3 have
          "find_text_loop T p re pos prev = find_text_loop T p re ?pos' m"
          by (subst find_text_loop.simps) simp
        with r have "find_text_loop T p re pos prev = Some r"
          by (simp only:)
        then show ?thesis ..
      qed
    qed
  qed
qed

lemma find_text_returns:
  assumes "p < length T"
  shows "\<exists>r. find_text T p re = Some r"
  using find_text_loop_returns [OF assms, of 0] by (simp add: find_text_def)

text \<open>
  For a pick offset at or beyond the end of the text no span is ever found, provided the
  matches of the pattern end within the text, as those of the pattern model do.
\<close>

lemma find_text_not_found_beyond:
  assumes "length T \<le> p"
    and "\<And>m. is_match re T m \<Longrightarrow> snd m \<le> length T"
  shows "find_text T p re \<noteq> Some (True, m)"
proof
  assume "find_text T p re = Some (True, m)"
  then have "find_text_loop T p re 0 (0, 0) = Some (True, m)"
    by (simp add: find_text_def)
  from find_text_loop_found [OF this] have "p < snd m" "is_match re T m"
    by simp_all
  with assms(2) [of m] assms(1) show False
    by simp
qed

lemma find_text_regex_not_found_beyond:
  assumes "length T \<le> p"
  shows "find_text T p (re_search fl r) \<noteq> Some (True, m)"
proof (rule find_text_not_found_beyond [OF assms])
  fix m
  assume "is_match (re_search fl r) T m"
  then obtain pos where "re_search fl r T pos = Some (fst m, snd m)"
    by (auto simp: is_match_def)
  from re_search_within [OF this] show "snd m \<le> length T"
    by simp
qed

text \<open>
  For a pick offset at the end of the text this is no longer so. The loop stops only when
  \<^verbatim>\<open>pos\<close> is equal to the length of the text; once the cursor has jumped to a match that
  starts at the end of the text and has been incremented, it is beyond the end, and if
  the pattern matches the empty string there, nothing stops the loop any more.
\<close>

lemma find_text_loop_diverges:
  assumes stuck: "\<forall>q \<ge> length T. re T q = Some (length T, length T)"
    and p: "length T \<le> p"
    and pos: "length T < pos"
  shows "find_text_loop T p re pos prev = None"
proof (rule ccontr)
  assume "find_text_loop T p re pos prev \<noteq> None"
  then obtain r where r: "find_text_loop T p re pos prev = Some r"
    by auto
  have "\<not> ((\<forall>q \<ge> length T. re T q = Some (length T, length T)) \<and> length T \<le> p \<and> length T < pos)"
  proof (rule find_text_loop.raw_induct
      [where P = "\<lambda>T p re pos prev r.
         \<not> ((\<forall>q \<ge> length T. re T q = Some (length T, length T)) \<and> length T \<le> p \<and> length T < pos)",
       OF _ r], goal_cases)
    case (1 f T p re pos prev r)
    show ?case
    proof
      assume a: "(\<forall>q \<ge> length T. re T q = Some (length T, length T)) \<and> length T \<le> p \<and> length T < pos"
      then have "re T pos = Some (length T, length T)"
        by simp
      with a 1(2) have "f T p re (pos + 1) (length T, length T) = Some r"
        by (simp split: if_splits)
      from 1(1) [OF this] a show False
        by simp
    qed
  qed
  with assms show False
    by blast
qed

lemma re_search_beyond:
  assumes "length T \<le> pos"
  shows "re_search fl r T pos = re_search fl r T (length T)"
  using assms by (simp add: re_search_def min_def)

lemma re_search_stuck:
  assumes "re_search fl r T (length T) = Some (length T, length T)"
  shows "\<forall>q \<ge> length T. re_search fl r T q = Some (length T, length T)"
proof (intro allI impI)
  fix q
  assume "length T \<le> q"
  then have "re_search fl r T q = re_search fl r T (length T)"
    by (rule re_search_beyond)
  with assms show "re_search fl r T q = Some (length T, length T)"
    by (simp only:)
qed

lemma find_text_loop_step:
  assumes "pos \<noteq> length T" "re T pos = Some m"
    and "\<not> (fst m \<le> p \<and> p < snd m)" "\<not> p < fst m"
  shows "find_text_loop T p re pos prev =
         find_text_loop T p re ((if pos < fst m then fst m else pos) + 1) m"
proof -
  have "find_text_loop T p re pos prev =
     (if pos \<noteq> length T then
        (case re T pos of
           None \<Rightarrow> Some (False, prev)
         | Some m \<Rightarrow>
             if fst m \<le> p \<and> p < snd m then Some (True, m)
             else if p < fst m then Some (False, m)
             else find_text_loop T p re
                    ((if pos < fst m then fst m else pos) + 1) m)
      else Some (False, prev))"
    by (rule find_text_loop.simps)
  also have "\<dots> = find_text_loop T p re ((if pos < fst m then fst m else pos) + 1) m"
    by (simp only: assms if_True if_False option.case not_False_eq_True simp_thms)
  finally show ?thesis .
qed

text \<open>
  Claim C3 says that the scanning loop ends for every text, pick offset and pattern,
  because \<^verbatim>\<open>pos\<close> grows and is bounded by the length of the text. With the text
  \<^verbatim>\<open>"abc"\<close>, the pick offset 3 (a click at the end of the line) and the pattern \<^verbatim>\<open>$\<close>, the
  first search finds the empty match \<open>(3, 3)\<close>, \<^verbatim>\<open>pos\<close> becomes 4, and the loop never
  ends: the call does not return.
\<close>

theorem end_of_text_loops:
  "find_text ''abc'' 3 (re_search no_flags EOL) = None"
proof -
  let ?re = "re_search no_flags EOL"
  have "?re ''abc'' (length ''abc'') = Some (length ''abc'', length ''abc'')"
    by code_simp
  then have stuck: "\<forall>q \<ge> length ''abc''. ?re ''abc'' q = Some (length ''abc'', length ''abc'')"
    by (rule re_search_stuck)
  have s0: "?re ''abc'' 0 = Some (3, 3)"
    by code_simp
  have "find_text_loop ''abc'' 3 ?re 0 (0, 0) =
        find_text_loop ''abc'' 3 ?re ((if 0 < fst (3::nat, 3::nat) then fst (3::nat, 3::nat) else 0) + 1) (3, 3)"
    by (rule find_text_loop_step) (simp_all add: s0)
  then have "find_text ''abc'' 3 ?re = find_text_loop ''abc'' 3 ?re 4 (3, 3)"
    by (simp add: find_text_def)
  also have "\<dots> = None"
    using stuck by (intro find_text_loop_diverges) simp_all
  finally show ?thesis .
qed

text \<open>
  Claim C10 says that \<^verbatim>\<open>_find_text\<close> returns \<^verbatim>\<open>found = False\<close> whenever the pick offset is
  at least the length of the text. With the text \<^verbatim>\<open>"line one\nline two\n"\<close>, the pick
  offset 18 (a click at the end of the document) and the pattern \<^verbatim>\<open>^.*$\<close> compiled with
  the multi-line flag, the searches find \<open>(0, 8)\<close>, \<open>(9, 17)\<close> and the empty match
  \<open>(18, 18)\<close>; then \<^verbatim>\<open>pos\<close> is 19 and the call does not return.
\<close>

theorem click_at_end_of_document_loops:
  "length two_lines = 18 \<and> find_text two_lines 18 (re_search flag_M whole_line) = None"
proof -
  let ?re = "re_search flag_M whole_line"
  have len: "length two_lines = 18"
    by (simp add: two_lines_def)
  have "?re two_lines (length two_lines) = Some (length two_lines, length two_lines)"
    by code_simp
  then have stuck: "\<forall>q \<ge> length two_lines. ?re two_lines q = Some (length two_lines, length two_lines)"
    by (rule re_search_stuck)
  have s0: "?re two_lines 0 = Some (0, 8)"
    by code_simp
  have s1: "?re two_lines 1 = Some (9, 17)"
    by code_simp
  have s10: "?re two_lines 10 = Some (18, 18)"
    by code_simp
  have "find_text_loop two_lines 18 ?re 0 (0, 0) =
        find_text_loop two_lines 18 ?re ((if 0 < fst (0::nat, 8::nat) then fst (0::nat, 8::nat) else 0) + 1) (0, 8)"
    by (rule find_text_loop_step) (simp_all add: s0 len)
  then have "find_text two_lines 18 ?re = find_text_loop two_lines 18 ?re 1 (0, 8)"
    by (simp add: find_text_def)
  also have "\<dots> =
        find_text_loop two_lines 18 ?re ((if 1 < fst (9::nat, 17::nat) then fst (9::nat, 17::nat) else 1) + 1) (9, 17)"
    by (rule find_text_loop_step) (simp_all add: s1 len del: One_nat_def)
  also have "\<dots> = find_text_loop two_lines 18 ?re 10 (9, 17)"
    by simp
  also have "\<dots> =
        find_text_loop two_lines 18 ?re ((if 10 < fst (18::nat, 18::nat) then fst (18::nat, 18::nat) else 10) + 1) (18, 18)"
    by (rule find_text_loop_step) (simp_all add: s10 len)
  also have "\<dots> = find_text_loop two_lines 18 ?re 19 (18, 18)"
    by simp
  also have "\<dots> = None"
    using stuck by (intro find_text_loop_diverges) (simp_all add: len)
  finally show ?thesis
    using len by simp
qed

end
